theory Spec2Isabelle
  imports Complex_Main
begin

section \<open>Regular expressions as the code uses them\<close>

text \<open>
  The code hands compiled patterns to two library entry points: \<open>Pattern.match\<close>
  (in \<open>LogsStorage.has_log_record\<close>), which succeeds when some prefix of the
  text is matched, and the schema library's \<open>Regex\<close> validator, which uses
  \<open>Pattern.search\<close> and succeeds when some substring is matched. Patterns are the
  fragment built from single characters, \<open>.\<close> (any character but a newline),
  concatenation, alternation and \<open>*\<close>; \<open>Nul\<close> matches nothing and only arises
  while matching.
\<close>

datatype regex =
    Nul
  | Eps
  | Chr char
  | Dot
  | Seq regex regex
  | Alt regex regex
  | Star regex

fun nullable :: "regex \<Rightarrow> bool" where
  "nullable Nul = False"
| "nullable Eps = True"
| "nullable (Chr c) = False"
| "nullable Dot = False"
| "nullable (Seq r s) = (nullable r \<and> nullable s)"
| "nullable (Alt r s) = (nullable r \<or> nullable s)"
| "nullable (Star r) = True"

definition newline :: char where
  "newline = CHR 0x0A"

fun deriv :: "char \<Rightarrow> regex \<Rightarrow> regex" where
  "deriv c Nul = Nul"
| "deriv c Eps = Nul"
| "deriv c (Chr d) = (if c = d then Eps else Nul)"
| "deriv c Dot = (if c = newline then Nul else Eps)"
| "deriv c (Seq r s) =
     (if nullable r then Alt (Seq (deriv c r) s) (deriv c s) else Seq (deriv c r) s)"
| "deriv c (Alt r s) = Alt (deriv c r) (deriv c s)"
| "deriv c (Star r) = Seq (deriv c r) (Star r)"

text \<open>\<open>Pattern.match\<close>: a match must start at the first character of the text.\<close>

fun re_match :: "regex \<Rightarrow> string \<Rightarrow> bool" where
  "re_match r [] = nullable r"
| "re_match r (c # cs) = (nullable r \<or> re_match (deriv c r) cs)"

text \<open>\<open>Pattern.search\<close>: a match may start at any position of the text.\<close>

fun re_search :: "regex \<Rightarrow> string \<Rightarrow> bool" where
  "re_search r [] = nullable r"
| "re_search r (c # cs) = (re_match r (c # cs) \<or> re_search r cs)"

text \<open>The pattern that a plain run of characters compiles to.\<close>

fun lit :: "string \<Rightarrow> regex" where
  "lit [] = Eps"
| "lit (c # cs) = Seq (Chr c) (lit cs)"

text \<open>The words a pattern denotes, to say what the two matchers decide.\<close>

inductive_set star :: "string set \<Rightarrow> string set" for A :: "string set" where
  star_nil: "[] \<in> star A"
| star_app: "u \<in> A \<Longrightarrow> v \<in> star A \<Longrightarrow> u @ v \<in> star A"

fun lang :: "regex \<Rightarrow> string set" where
  "lang Nul = {}"
| "lang Eps = {[]}"
| "lang (Chr c) = {[c]}"
| "lang Dot = {[c] | c. c \<noteq> newline}"
| "lang (Seq r s) = {u @ v | u v. u \<in> lang r \<and> v \<in> lang s}"
| "lang (Alt r s) = lang r \<union> lang s"
| "lang (Star r) = star (lang r)"

section \<open>LogsStorage\<close>

record log_record =
  levelname :: string
  logger_name :: string
  message :: string

text \<open>
  The queue is the list of records waiting in it, oldest first; the buffer
  \<open>logs_storage\<close> is the list of collected records.
\<close>

record logs_state =
  logs_queue :: "log_record list"
  logs_storage :: "log_record list"

datatype queue_error = Empty

definition get_nowait :: "log_record list \<Rightarrow> queue_error + (log_record \<times> log_record list)" where
  "get_nowait q = (case q of [] \<Rightarrow> Inl Empty | x # xs \<Rightarrow> Inr (x, xs))"

definition init_logs_storage :: "log_record list \<Rightarrow> logs_state" where
  "init_logs_storage q = \<lparr>logs_queue = q, logs_storage = []\<rparr>"

function clear_logs_queue :: "logs_state \<Rightarrow> logs_state" where
  "clear_logs_queue st =
     (case get_nowait (logs_queue st) of
        Inl Empty \<Rightarrow> st
      | Inr (x, q') \<Rightarrow> clear_logs_queue (st\<lparr>logs_queue := q'\<rparr>))"
  by pat_completeness auto
termination
  by (relation "measure (\<lambda>st. length (logs_queue st))")
     (auto simp: get_nowait_def split: list.splits)

definition clear_logs_storage :: "logs_state \<Rightarrow> logs_state" where
  "clear_logs_storage st = st\<lparr>logs_storage := []\<rparr>"

function collect_from_queue :: "logs_state \<Rightarrow> logs_state" where
  "collect_from_queue st =
     (case get_nowait (logs_queue st) of
        Inl Empty \<Rightarrow> st
      | Inr (x, q') \<Rightarrow>
          collect_from_queue (st\<lparr>logs_queue := q', logs_storage := logs_storage st @ [x]\<rparr>))"
  by pat_completeness auto
termination
  by (relation "measure (\<lambda>st. length (logs_queue st))")
     (auto simp: get_nowait_def split: list.splits)

definition filter_logs :: "string option \<Rightarrow> string option \<Rightarrow> logs_state \<Rightarrow> log_record list" where
  "filter_logs level name st =
     (let filtered_logs = logs_storage st;
          filtered_logs = (case level of
                             None \<Rightarrow> filtered_logs
                           | Some l \<Rightarrow> filter (\<lambda>entry. levelname entry = l) filtered_logs);
          filtered_logs = (case name of
                             None \<Rightarrow> filtered_logs
                           | Some n \<Rightarrow> filter (\<lambda>entry. logger_name entry = n) filtered_logs)
      in filtered_logs)"

fun first_matching :: "regex \<Rightarrow> log_record list \<Rightarrow> bool" where
  "first_matching p [] = False"
| "first_matching p (entry # entries) =
     (if re_match p (message entry) then True else first_matching p entries)"

definition has_log_record :: "regex \<Rightarrow> string \<Rightarrow> bool \<Rightarrow> logs_state \<Rightarrow> bool \<times> logs_state" where
  "has_log_record message_pattern level collect_new_records_from_queue st =
     (let st' = (if collect_new_records_from_queue then collect_from_queue st else st)
      in (first_matching message_pattern (filter_logs (Some level) None st'), st'))"

definition has_info_log_record :: "regex \<Rightarrow> bool \<Rightarrow> logs_state \<Rightarrow> bool \<times> logs_state" where
  "has_info_log_record message_pattern collect_new = has_log_record message_pattern ''INFO'' collect_new"

definition has_error_log_record :: "regex \<Rightarrow> bool \<Rightarrow> logs_state \<Rightarrow> bool \<times> logs_state" where
  "has_error_log_record message_pattern collect_new = has_log_record message_pattern ''ERROR'' collect_new"

definition has_warning_log_record :: "regex \<Rightarrow> bool \<Rightarrow> logs_state \<Rightarrow> bool \<times> logs_state" where
  "has_warning_log_record message_pattern collect_new = has_log_record message_pattern ''WARNING'' collect_new"

text \<open>
  The capture scope \<open>with LogsStorage(queue) as logs: body\<close>. The body is the
  sequence of things that happen while the scope is open: a worker puts a record
  on the queue, or the caller queries the storage. The body ends normally or by
  raising; \<open>__exit__\<close> runs in both cases and returns \<open>None\<close>, so an exception
  of the body propagates after the exit drain.
\<close>

datatype scope_op =
    Put log_record
  | Query regex string bool

fun run_op :: "scope_op \<Rightarrow> logs_state \<Rightarrow> logs_state" where
  "run_op (Put r) st = st\<lparr>logs_queue := logs_queue st @ [r]\<rparr>"
| "run_op (Query p level collect) st = snd (has_log_record p level collect st)"

fun run_ops :: "scope_op list \<Rightarrow> logs_state \<Rightarrow> logs_state" where
  "run_ops [] st = st"
| "run_ops (op # ops) st = run_ops ops (run_op op st)"

definition enter :: "logs_state \<Rightarrow> logs_state" where
  "enter st = clear_logs_queue st"

definition exit_scope :: "logs_state \<Rightarrow> logs_state" where
  "exit_scope st = collect_from_queue st"

definition with_logs_storage ::
  "logs_state \<Rightarrow> scope_op list \<Rightarrow> 'e option \<Rightarrow> 'e option \<times> logs_state" where
  "with_logs_storage st body raised =
     (let st1 = enter st;
          st2 = run_ops body st1;
          st3 = exit_scope st2
      in (raised, st3))"

section \<open>Schema validation as the rules use it\<close>

text \<open>
  The rules hand their attributes to \<open>Schema(...).is_valid(...)\<close> of the schema
  library. Values that reach it are \<open>None\<close>, strings and integers; a validator
  is a literal (compared with \<open>==\<close>), a \<open>Regex\<close> (a search, failing on a
  non-string), the type \<open>str\<close>, or an \<open>Or\<close> of validators. A dictionary
  validator maps keys, each a validator that may be wrapped in \<open>Optional\<close>, to
  value validators. The library is a dependency of the repository, not part of
  it; the definitions below follow its documented dictionary validation and give
  the expected answer on every row of the tables in \<open>test_http_backend.py\<close>.
\<close>

datatype pyval = PNone | PStr string | PInt int

datatype matcher =
    Lit pyval
  | Rx regex
  | TypeStr
  | Or "matcher list"

fun matcher_valid :: "matcher \<Rightarrow> pyval \<Rightarrow> bool" where
  "matcher_valid (Lit x) v = (x = v)"
| "matcher_valid (Rx r) v = (case v of PStr s \<Rightarrow> re_search r s | _ \<Rightarrow> False)"
| "matcher_valid TypeStr v = (case v of PStr s \<Rightarrow> True | _ \<Rightarrow> False)"
| "matcher_valid (Or ms) v = list_ex (\<lambda>m. matcher_valid m v) ms"

datatype skey = Req matcher | Opt matcher

fun key_matcher :: "skey \<Rightarrow> matcher" where
  "key_matcher (Req m) = m"
| "key_matcher (Opt m) = m"

fun is_optional :: "skey \<Rightarrow> bool" where
  "is_optional (Req m) = False"
| "is_optional (Opt m) = True"

text \<open>
  The library tries the keys of a dictionary validator in the order of their
  priority: literals (0) before validators such as \<open>Regex\<close> and \<open>Or\<close> (2)
  before types (3), an \<open>Optional\<close> key half a step after its plain form. The
  priorities are doubled here to stay in the naturals.
\<close>

fun priority :: "matcher \<Rightarrow> nat" where
  "priority (Lit x) = 0"
| "priority (Rx r) = 2"
| "priority TypeStr = 3"
| "priority (Or ms) = 2"

fun dict_key_priority :: "skey \<Rightarrow> nat" where
  "dict_key_priority (Req m) = 2 * priority m"
| "dict_key_priority (Opt m) = 2 * priority m + 1"

definition key_valid :: "skey \<Rightarrow> string \<Rightarrow> bool" where
  "key_valid sk k = matcher_valid (key_matcher sk) (PStr k)"

text \<open>
  One pass over the items of the actual dictionary. For each item the first
  validator key that accepts the item's key decides: if its value validator
  accepts the value, the key is recorded in \<open>new\<close> and the validator key in
  \<open>coverage\<close>; if not, validation fails at once (\<open>None\<close>). An item that no
  validator key accepts is skipped. The actual dictionary has each key once, so
  the length of \<open>new\<close> is the number of items accepted.
\<close>

fun validate_items ::
  "(skey \<times> matcher) list \<Rightarrow> (string \<times> pyval) list \<Rightarrow> string list \<times> skey list \<Rightarrow>
   (string list \<times> skey list) option" where
  "validate_items sorted_skeys [] acc = Some acc"
| "validate_items sorted_skeys ((k, v) # items) (new, coverage) =
     (case find (\<lambda>(sk, sv). key_valid sk k) sorted_skeys of
        None \<Rightarrow> validate_items sorted_skeys items (new, coverage)
      | Some (sk, sv) \<Rightarrow>
          if matcher_valid sv v
          then validate_items sorted_skeys items (new @ [k], coverage @ [sk])
          else None)"

definition dict_is_valid ::
  "bool \<Rightarrow> (skey \<times> matcher) list \<Rightarrow> (string \<times> pyval) list \<Rightarrow> bool" where
  "dict_is_valid ignore_extra_keys s data =
     (case validate_items (sort_key (\<lambda>(sk, sv). dict_key_priority sk) s) data ([], []) of
        None \<Rightarrow> False
      | Some (new, coverage) \<Rightarrow>
          (let required = filter (\<lambda>sk. \<not> is_optional sk) (map fst s)
           in if \<not> list_all (\<lambda>sk. sk \<in> set coverage) required then False
              else if \<not> ignore_extra_keys \<and> length new \<noteq> length data then False
              else True))"

datatype schema = SVal matcher | SDict "(skey \<times> matcher) list"

datatype pydata = DVal pyval | DDict "(string \<times> pyval) list"

fun is_valid :: "bool \<Rightarrow> schema \<Rightarrow> pydata \<Rightarrow> bool" where
  "is_valid ignore_extra_keys (SVal m) (DVal v) = matcher_valid m v"
| "is_valid ignore_extra_keys (SVal m) (DDict d) = False"
| "is_valid ignore_extra_keys (SDict s) (DVal v) = False"
| "is_valid ignore_extra_keys (SDict s) (DDict d) = dict_is_valid ignore_extra_keys s d"

text \<open>
  Python dictionaries as association lists with each key once. \<open>dict_of\<close> is
  \<open>dict(multidict)\<close>, which keeps the first value of a repeated key;
  \<open>dict_comp\<close> is a dictionary comprehension, where a later value replaces an
  earlier one.
\<close>

fun dict_of :: "('k \<times> 'v) list \<Rightarrow> ('k \<times> 'v) list" where
  "dict_of [] = []"
| "dict_of ((k, v) # xs) = (k, v) # dict_of (filter (\<lambda>(k', v'). k' \<noteq> k) xs)"

fun dict_set :: "('k \<times> 'v) list \<Rightarrow> 'k \<Rightarrow> 'v \<Rightarrow> ('k \<times> 'v) list" where
  "dict_set [] k v = [(k, v)]"
| "dict_set ((k', v') # d) k v = (if k' = k then (k, v) # d else (k', v') # dict_set d k v)"

definition dict_comp :: "('k \<times> 'v) list \<Rightarrow> ('k \<times> 'v) list" where
  "dict_comp xs = foldl (\<lambda>d (k, v). dict_set d k v) [] xs"

section \<open>HTTP rules and the HTTP handler\<close>

record http_request =
  req_method :: string
  req_path :: string
  req_query :: "(string \<times> string) list"
  req_headers :: "(string \<times> string) list"

datatype json = JString string | JObject "(string \<times> json) list"

datatype http_response =
    Response string int
  | JsonResponse json int

datatype http_result =
    HTTPResult string int
  | CustomResult "http_request \<Rightarrow> http_response"

fun process :: "http_result \<Rightarrow> http_request \<Rightarrow> http_response" where
  "process (HTTPResult data status) request = Response data status"
| "process (CustomResult f) request = f request"

record http_rule =
  rule_method :: "string option"
  path :: "matcher option"
  query_params :: "(skey \<times> matcher) list option"
  ignore_extra_query_params :: bool
  headers :: "(skey \<times> matcher) list option"
  ignore_extra_headers :: bool
  result :: http_result

definition default_http_rule :: http_rule where
  "default_http_rule =
     \<lparr>rule_method = None, path = None, query_params = None, ignore_extra_query_params = False,
      headers = None, ignore_extra_headers = False,
      result = HTTPResult ''HTTP BACKEND RESULT'' 200\<rparr>"

text \<open>\<open>str.lower\<close> and \<open>str.casefold\<close> on ASCII text.\<close>

definition lower_char :: "char \<Rightarrow> char" where
  "lower_char c =
     (case map_of (zip ''ABCDEFGHIJKLMNOPQRSTUVWXYZ'' ''abcdefghijklmnopqrstuvwxyz'') c of
        None \<Rightarrow> c
      | Some d \<Rightarrow> d)"

definition lower :: "string \<Rightarrow> string" where
  "lower s = map lower_char s"

definition casefold :: "string \<Rightarrow> string" where
  "casefold s = map lower_char s"

definition schema_of_matcher :: "matcher option \<Rightarrow> schema" where
  "schema_of_matcher a = (case a of None \<Rightarrow> SVal (Lit PNone) | Some m \<Rightarrow> SVal m)"

definition schema_of_dict :: "(skey \<times> matcher) list option \<Rightarrow> schema" where
  "schema_of_dict a = (case a of None \<Rightarrow> SVal (Lit PNone) | Some s \<Rightarrow> SDict s)"

definition str_dict :: "(string \<times> string) list \<Rightarrow> (string \<times> pyval) list" where
  "str_dict d = map (\<lambda>(k, v). (k, PStr v)) d"

definition method_mathes :: "http_rule \<Rightarrow> http_request \<Rightarrow> bool" where
  "method_mathes rule request =
     (case rule_method rule of
        None \<Rightarrow> True
      | Some m \<Rightarrow> lower (req_method request) = lower m)"

definition path_matches :: "http_rule \<Rightarrow> http_request \<Rightarrow> bool" where
  "path_matches rule request =
     (let p = (if path rule = None then DVal PNone else DVal (PStr (req_path request)))
      in is_valid False (schema_of_matcher (path rule)) p)"

definition query_params_match :: "http_rule \<Rightarrow> http_request \<Rightarrow> bool" where
  "query_params_match rule request =
     (let query = (if query_params rule = None then DVal PNone
                   else DDict (str_dict (dict_of (req_query request))))
      in is_valid (ignore_extra_query_params rule) (schema_of_dict (query_params rule)) query)"

definition headers_match :: "http_rule \<Rightarrow> http_request \<Rightarrow> bool" where
  "headers_match rule request =
     (let hs = (if headers rule = None then DVal PNone
                else DDict (str_dict (dict_of (req_headers request))))
      in is_valid (ignore_extra_headers rule) (schema_of_dict (headers rule)) hs)"

definition matches :: "http_rule \<Rightarrow> http_request \<Rightarrow> bool" where
  "matches rule request =
     (method_mathes rule request \<and> path_matches rule request \<and>
      query_params_match rule request \<and> headers_match rule request)"

definition json_of_dict :: "(string \<times> string) list \<Rightarrow> json" where
  "json_of_dict d = JObject (map (\<lambda>(k, v). (k, JString v)) d)"

definition error_response_json :: "http_request \<Rightarrow> json" where
  "error_response_json request =
     (let incoming_request_info =
            JObject [(''method'', JString (req_method request)),
                     (''path'', JString (req_path request)),
                     (''query_params'', json_of_dict (dict_of (req_query request))),
                     (''headers'', json_of_dict (dict_of (req_headers request)))]
      in JObject [(''ERROR'', JString ''No matching rule found for incoming request''),
                  (''incoming_request_info'', incoming_request_info)])"

fun handle :: "http_rule list \<Rightarrow> http_request \<Rightarrow> http_response" where
  "handle [] request = JsonResponse (error_response_json request) 404"
| "handle (rule # rules) request =
     (if matches rule request then process (result rule) request else handle rules request)"

section \<open>gRPC rules and the interceptor's handler\<close>

type_synonym bytes = "char list"

text \<open>A decoded message is what \<open>ListFields\<close> gives: field names with their values.\<close>

type_synonym grpc_message = "(string \<times> pyval) list"

text \<open>
  A message class is its \<open>FromString\<close>, which raises \<open>DecodeError\<close> on bytes that
  are not a message of the class: the result is then \<open>None\<close>. The handler calls
  it on the raw bytes of the client with nothing around it to catch the error, so
  the error leaves the handler.
\<close>

datatype grpc_error = DecodeError

record grpc_rule =
  request_msg_cls :: "bytes \<Rightarrow> grpc_message option"
  output_handler :: "grpc_message \<Rightarrow> bytes"
  grpc_method :: "string option"
  message_args :: "(skey \<times> matcher) list option"
  ignore_extra_message_args :: bool

definition method_matches :: "grpc_rule \<Rightarrow> string \<Rightarrow> bool" where
  "method_matches rule m =
     (case grpc_method rule of
        None \<Rightarrow> True
      | Some gm \<Rightarrow> casefold m = casefold gm)"

definition message_args_match :: "grpc_rule \<Rightarrow> grpc_message \<Rightarrow> bool" where
  "message_args_match rule msg =
     (case message_args rule of
        None \<Rightarrow> True
      | Some args \<Rightarrow>
          is_valid (ignore_extra_message_args rule) (SDict args) (DDict (dict_comp msg)))"

text \<open>
  A gRPC rule matches a call when its method check holds, its message class
  decodes the request and the decoded message passes its field check. It rejects
  the call when its method check fails, or when the request decodes and the
  decoded message fails the field check. A rule whose method check holds and
  whose message class cannot decode the request does neither.
\<close>

definition grpc_rule_matches :: "grpc_rule \<Rightarrow> string \<Rightarrow> bytes \<Rightarrow> bool" where
  "grpc_rule_matches rule m request =
     (method_matches rule m \<and>
      (case request_msg_cls rule request of
         None \<Rightarrow> False
       | Some request_message \<Rightarrow> message_args_match rule request_message))"

definition grpc_rule_rejects :: "grpc_rule \<Rightarrow> string \<Rightarrow> bytes \<Rightarrow> bool" where
  "grpc_rule_rejects rule m request =
     (if method_matches rule m
      then (case request_msg_cls rule request of
              None \<Rightarrow> False
            | Some request_message \<Rightarrow> \<not> message_args_match rule request_message)
      else True)"

datatype status_code = INVALID_ARGUMENT

record servicer_context =
  aborted :: "(status_code \<times> string) option"

definition abort :: "status_code \<Rightarrow> string \<Rightarrow> servicer_context \<Rightarrow> servicer_context" where
  "abort code details context = context\<lparr>aborted := Some (code, details)\<rparr>"

fun handler ::
  "grpc_rule list \<Rightarrow> string \<Rightarrow> bytes \<Rightarrow> servicer_context \<Rightarrow>
   grpc_error + (bytes option \<times> servicer_context)" where
  "handler [] grpc_method_name request context =
     Inr (None, abort INVALID_ARGUMENT ''no matched GRPC rules found'' context)"
| "handler (rule # rules) grpc_method_name request context =
     (if method_matches rule grpc_method_name
      then (case request_msg_cls rule request of
              None \<Rightarrow> Inl DecodeError
            | Some request_message \<Rightarrow>
                if message_args_match rule request_message
                then Inr (Some (output_handler rule request_message), context)
                else handler rules grpc_method_name request context)
      else handler rules grpc_method_name request context)"

section \<open>Starting backends\<close>

text \<open>
  What the orchestration uses of a backend is its port and its \<open>repr\<close>. A
  worker process is the handle \<open>multiprocessing.Process(name, target, args, daemon)\<close>.
  The effects of the orchestration on the outside world are recorded, in order,
  as a list of events.
\<close>

record backend =
  port :: int
  repr :: string

record worker =
  worker_name :: string
  target :: backend
  daemon :: bool

datatype event =
    ManagerCreated
  | SignalsListCreated
  | ProcessStarted worker
  | ManagerShutdown
  | Terminated worker
  | Joined worker

datatype start_error =
    ValueError "backend list"
  | TimeoutError real "string list"

text \<open>
  The loop \<open>while monotonic() - start < start_timeout_sec\<close> reads the clock and
  then the length of the shared list once per round. The environment supplies
  what these reads return: the clock value that \<open>start\<close> receives, and for each
  round the clock value and the content of the shared list at that moment. The
  loop uses one entry per round; with no entry left it has not returned
  (\<open>None\<close>).
\<close>

record environment =
  clock_start :: real
  rounds :: "(real \<times> string list) list"

datatype poll_result =
    AllStarted "string list"
  | TimedOut "string list"

fun poll :: "real \<Rightarrow> real \<Rightarrow> nat \<Rightarrow> (real \<times> string list) list \<Rightarrow> poll_result option" where
  "poll start start_timeout_sec n [] = None"
| "poll start start_timeout_sec n ((now, start_signals_list) # rest) =
     (if now - start < start_timeout_sec
      then (if length start_signals_list = n then Some (AllStarted start_signals_list)
            else poll start start_timeout_sec n rest)
      else Some (TimedOut start_signals_list))"

definition start_backend :: "backend \<Rightarrow> event list \<Rightarrow> worker \<times> event list" where
  "start_backend b events =
     (let proc = \<lparr>worker_name = ''backend application '' @ repr b, target = b, daemon = True\<rparr>
      in (proc, events @ [ProcessStarted proc]))"

fun start_each :: "backend list \<Rightarrow> event list \<Rightarrow> worker list \<times> event list" where
  "start_each [] events = ([], events)"
| "start_each (b # bs) events =
     (let (proc, events1) = start_backend b events;
          (procs, events2) = start_each bs events1
      in (proc # procs, events2))"

definition start_backends ::
  "backend list \<Rightarrow> real \<Rightarrow> environment \<Rightarrow> event list \<Rightarrow>
   (start_error + worker list) option \<times> event list" where
  "start_backends backends start_timeout_sec env events =
     (if length backends \<noteq> length (remdups (map port backends))
      then (Some (Inl (ValueError backends)), events)
      else
        (let events1 = events @ [ManagerCreated];
             events2 = events1 @ [SignalsListCreated];
             (backend_processes, events3) = start_each backends events2
         in case poll (clock_start env) start_timeout_sec (length backend_processes) (rounds env) of
              None \<Rightarrow> (None, events3)
            | Some (AllStarted start_signals_list) \<Rightarrow>
                (Some (Inr backend_processes), events3 @ [ManagerShutdown])
            | Some (TimedOut start_signals_list) \<Rightarrow>
                (Some (Inl (TimeoutError start_timeout_sec start_signals_list)),
                 events3 @ [ManagerShutdown])))"

text \<open>
  \<open>backends_manager\<close> as a scope: the caller's code inside the scope ends
  normally (\<open>None\<close>) or raises (\<open>Some e\<close>). The \<open>finally\<close> block terminates and
  then joins the processes held in \<open>backends_processes\<close>, which is the empty list
  until \<open>start_backends\<close> has returned.
\<close>

datatype 'e scope_exit =
    Returned
  | StartFailed start_error
  | BodyRaised 'e

definition terminate_and_join :: "worker list \<Rightarrow> event list \<Rightarrow> event list" where
  "terminate_and_join procs events = events @ map Terminated procs @ map Joined procs"

definition backends_manager ::
  "backend list \<Rightarrow> environment \<Rightarrow> 'e option \<Rightarrow> event list \<Rightarrow> 'e scope_exit option \<times> event list" where
  "backends_manager backends_to_start env body events =
     (let backends_processes = []
      in case start_backends backends_to_start 5 env events of
           (None, events1) \<Rightarrow> (None, events1)
         | (Some (Inl err), events1) \<Rightarrow>
             (Some (StartFailed err), terminate_and_join backends_processes events1)
         | (Some (Inr procs), events1) \<Rightarrow>
             (let backends_processes = procs
              in (Some (case body of None \<Rightarrow> Returned | Some e \<Rightarrow> BodyRaised e),
                  terminate_and_join backends_processes events1)))"

section \<open>Example rules and requests\<close>

text \<open>
  The scenarios of the specification and of the repository's tests: a request
  \<open>GET /search?q=vk&num=10\<close>, a rule for the path \<open>/search\<close> followed by the
  default rule, and a gRPC rule for the method \<open>Lookup\<close> with the field
  \<open>id = "42"\<close>, whose message class decodes the payload into the field \<open>id\<close>.
  The message class of \<open>framed_rule\<close> needs a payload of at least four bytes
  and cannot decode a shorter one; the rule applies to every method, and
  \<open>ping_rule\<close> is the same rule for the method \<open>Ping\<close> only.
\<close>

definition search_request :: http_request where
  "search_request =
     \<lparr>req_method = ''GET'', req_path = ''/search'',
      req_query = [(''q'', ''vk''), (''num'', ''10'')],
      req_headers = [(''foo'', ''bar'')]\<rparr>"

definition other_request :: http_request where
  "other_request = search_request\<lparr>req_path := ''/other''\<rparr>"

definition search_rule :: http_rule where
  "search_rule = default_http_rule\<lparr>path := Some (Lit (PStr ''/search'')), result := HTTPResult ''found'' 200\<rparr>"

definition other_rule :: http_rule where
  "other_rule = default_http_rule\<lparr>path := Some (Lit (PStr ''/other'')), result := HTTPResult ''other'' 200\<rparr>"

definition id_message :: "bytes \<Rightarrow> grpc_message option" where
  "id_message raw = Some [(''id'', PStr raw)]"

definition framed_message :: "bytes \<Rightarrow> grpc_message option" where
  "framed_message raw =
     (if length raw < 4 then None else Some [(''body'', PStr (drop 4 raw))])"

definition framed_rule :: grpc_rule where
  "framed_rule =
     \<lparr>request_msg_cls = framed_message, output_handler = (\<lambda>msg. ''framed''),
      grpc_method = None,
      message_args = Some [(Req (Lit (PStr ''body'')), Lit (PStr ''ping''))],
      ignore_extra_message_args = False\<rparr>"

definition ping_rule :: grpc_rule where
  "ping_rule = framed_rule\<lparr>grpc_method := Some ''Ping''\<rparr>"

definition lookup_rule :: grpc_rule where
  "lookup_rule =
     \<lparr>request_msg_cls = id_message, output_handler = (\<lambda>msg. ''found''),
      grpc_method = Some ''Lookup'',
      message_args = Some [(Req (Lit (PStr ''id'')), Lit (PStr ''42''))],
      ignore_extra_message_args = False\<rparr>"

definition any_rule :: grpc_rule where
  "any_rule =
     \<lparr>request_msg_cls = id_message, output_handler = (\<lambda>msg. ''fallback''),
      grpc_method = None, message_args = None, ignore_extra_message_args = False\<rparr>"

definition fresh_context :: servicer_context where
  "fresh_context = \<lparr>aborted = None\<rparr>"

text \<open>
  Backends for the start-up scenarios: two on distinct ports, a third that
  shares the port of the first. In \<open>prompt_start\<close> both workers have signalled
  by the second round of the loop; in \<open>never_started\<close> nothing has been signalled
  when the clock passes the five seconds of the default timeout.
\<close>

definition backend_a :: backend where
  "backend_a = \<lparr>port = 10101, repr = ''A''\<rparr>"

definition backend_b :: backend where
  "backend_b = \<lparr>port = 10102, repr = ''B''\<rparr>"

definition backend_c :: backend where
  "backend_c = \<lparr>port = 10101, repr = ''C''\<rparr>"

definition prompt_start :: environment where
  "prompt_start =
     \<lparr>clock_start = 100,
      rounds = [(100, [''A start message'']),
                (101, [''A start message'', ''B start message''])]\<rparr>"

definition never_started :: environment where
  "never_started = \<lparr>clock_start = 100, rounds = [(101, []), (106, [])]\<rparr>"

definition worker_of :: "backend \<Rightarrow> worker" where
  "worker_of b = fst (start_backend b [])"

section \<open>The mapping match as the specification words it\<close>

text \<open>
  A dictionary validator whose keys are plain strings, none of them optional.
\<close>

definition lit_keys :: "(string \<times> matcher) list \<Rightarrow> (skey \<times> matcher) list" where
  "lit_keys kv = map (\<lambda>(k, m). (Req (Lit (PStr k)), m)) kv"

text \<open>
  The specification's reading of a mapping match: every key of the validator is
  a key of the actual mapping, with a value that satisfies the validator's value
  for that key; and unless extra keys are tolerated, the actual keys are the
  validator's keys. A key wrapped in \<open>Optional\<close> counts as the key it wraps.
\<close>

definition spec_mapping_match ::
  "bool \<Rightarrow> (skey \<times> matcher) list \<Rightarrow> (string \<times> pyval) list \<Rightarrow> bool" where
  "spec_mapping_match tolerance validator actual =
     (list_all (\<lambda>(sk, m). list_ex (\<lambda>(k, v). key_matcher sk = Lit (PStr k) \<and> matcher_valid m v) actual)
        validator \<and>
      (tolerance \<or>
       set (map (\<lambda>(k, v). Lit (PStr k)) actual) = set (map (\<lambda>(sk, m). key_matcher sk) validator)))"

text \<open>The keys of the actual mapping that a validator with plain string keys accepts.\<close>

definition accepted :: "(string \<times> matcher) list \<Rightarrow> (string \<times> pyval) list \<Rightarrow> string list" where
  "accepted kv d = filter (\<lambda>k. map_of kv k \<noteq> None) (map fst d)"

section \<open>What the matchers decide\<close>


lemma nullable_iff: "nullable r \<longleftrightarrow> [] \<in> lang r"
  by (induction r) (auto intro: star_nil)

lemma star_Cons_aux:
  "x \<in> star A \<Longrightarrow> x = c # w \<Longrightarrow> \<exists>u v. w = u @ v \<and> c # u \<in> A \<and> v \<in> star A"
proof (induction arbitrary: w rule: star.induct)
  case star_nil
  then show ?case by simp
next
  case (star_app u v)
  show ?case
  proof (cases u)
    case Nil
    with star_app show ?thesis by simp
  next
    case (Cons d u')
    with star_app.prems have "d = c" and "w = u' @ v" by simp_all
    with star_app.hyps Cons show ?thesis by blast
  qed
qed

lemma star_Cons_iff:
  "c # w \<in> star A \<longleftrightarrow> (\<exists>u v. w = u @ v \<and> c # u \<in> A \<and> v \<in> star A)"
proof
  assume "c # w \<in> star A"
  then show "\<exists>u v. w = u @ v \<and> c # u \<in> A \<and> v \<in> star A"
    by (rule star_Cons_aux) simp
next
  assume "\<exists>u v. w = u @ v \<and> c # u \<in> A \<and> v \<in> star A"
  then obtain u v where "w = u @ v" "c # u \<in> A" "v \<in> star A" by blast
  then have "(c # u) @ v \<in> star A" by (intro star_app)
  with \<open>w = u @ v\<close> show "c # w \<in> star A" by simp
qed

lemma lang_deriv: "lang (deriv c r) = {w. c # w \<in> lang r}"
proof (induction r)
  case (Seq r s)
  show ?case
  proof (cases "nullable r")
    case True
    then have "[] \<in> lang r" by (simp add: nullable_iff)
    with True Seq show ?thesis
      by (auto simp: Cons_eq_append_conv)
  next
    case False
    then have "[] \<notin> lang r" by (simp add: nullable_iff)
    with False Seq show ?thesis
      by (auto simp: Cons_eq_append_conv) 
  qed
next
  case (Star r)
  then show ?case by (auto simp: star_Cons_iff)
qed auto

lemma re_match_iff: "re_match r s \<longleftrightarrow> (\<exists>u v. s = u @ v \<and> u \<in> lang r)"
proof (induction s arbitrary: r)
  case Nil
  then show ?case by (simp add: nullable_iff)
next
  case (Cons c cs)
  have "(\<exists>u v. c # cs = u @ v \<and> u \<in> lang r) \<longleftrightarrow>
        [] \<in> lang r \<or> (\<exists>u v. cs = u @ v \<and> c # u \<in> lang r)"
    by (auto simp: Cons_eq_append_conv)
  with Cons show ?case by (simp add: nullable_iff lang_deriv)
qed

lemma re_search_iff: "re_search r s \<longleftrightarrow> (\<exists>t u v. s = t @ u @ v \<and> u \<in> lang r)"
proof (induction s)
  case Nil
  then show ?case by (simp add: nullable_iff)
next
  case (Cons c cs)
  have "(\<exists>t u v. c # cs = t @ u @ v \<and> u \<in> lang r) \<longleftrightarrow>
        (\<exists>u v. c # cs = u @ v \<and> u \<in> lang r) \<or> (\<exists>t u v. cs = t @ u @ v \<and> u \<in> lang r)"
    (is "?L \<longleftrightarrow> ?M \<or> ?R")
  proof
    assume ?L
    then obtain t u v where h: "c # cs = t @ u @ v" "u \<in> lang r" by blast
    show "?M \<or> ?R"
    proof (cases t)
      case Nil with h show ?thesis by auto
    next
      case (Cons d t') with h have "cs = t' @ u @ v" by simp
      with h show ?thesis by blast
    qed
  next
    assume "?M \<or> ?R"
    then show ?L
    proof
      assume ?M then obtain u v where "c # cs = [] @ u @ v" "u \<in> lang r" by auto
      then show ?L by blast
    next
      assume ?R then obtain t u v where "cs = t @ u @ v" "u \<in> lang r" by blast
      then have "c # cs = (c # t) @ u @ v" by simp
      with \<open>u \<in> lang r\<close> show ?L by blast
    qed
  qed
  with Cons show ?case using re_match_iff [of r "c # cs"] by simp
qed

lemma lang_lit: "lang (lit w) = {w}"
  by (induction w) auto

lemma star_dot: "star (lang Dot) = {t. newline \<notin> set t}"
proof (intro set_eqI iffI)
  fix t assume "t \<in> star (lang Dot)"
  then show "t \<in> {t. newline \<notin> set t}" by (induction rule: star.induct) auto
next
  fix t assume "t \<in> {t. newline \<notin> set t}"
  then have "newline \<notin> set t" by simp
  then show "t \<in> star (lang Dot)"
  proof (induction t)
    case Nil show ?case by (rule star_nil)
  next
    case (Cons c t)
    then have "[c] \<in> lang Dot" "t \<in> star (lang Dot)" by auto
    then have "[c] @ t \<in> star (lang Dot)" by (rule star_app)
    then show ?case by simp
  qed
qed

lemma re_match_lit: "re_match (lit w) s \<longleftrightarrow> (\<exists>v. s = w @ v)"
  by (simp add: re_match_iff lang_lit)

lemma re_match_anywhere:
  "re_match (Seq (Star Dot) (lit w)) s \<longleftrightarrow> (\<exists>t v. s = t @ w @ v \<and> newline \<notin> set t)"
proof -
  have "lang (Seq (Star Dot) (lit w)) = {t @ w | t. newline \<notin> set t}"
    unfolding lang.simps(5) lang.simps(7) star_dot lang_lit by auto
  then have "re_match (Seq (Star Dot) (lit w)) s \<longleftrightarrow>
             (\<exists>u v. s = u @ v \<and> u \<in> {t @ w | t. newline \<notin> set t})"
    unfolding re_match_iff by (rule arg_cong [where f = "\<lambda>L. \<exists>u v. s = u @ v \<and> u \<in> L"])
  also have "\<dots> \<longleftrightarrow> (\<exists>t v. s = (t @ w) @ v \<and> newline \<notin> set t)"
    by blast
  finally show ?thesis by simp
qed


section \<open>Properties of LogsStorage\<close>


declare clear_logs_queue.simps [simp del] collect_from_queue.simps [simp del]

lemma clear_logs_queue_eq: "clear_logs_queue st = st\<lparr>logs_queue := []\<rparr>"
proof (induction "logs_queue st" arbitrary: st)
  case Nil
  then show ?case
    by (subst clear_logs_queue.simps) (simp add: get_nowait_def)
next
  case (Cons x xs)
  from Cons(2) have q: "logs_queue st = x # xs" by simp
  have "clear_logs_queue st = clear_logs_queue (st\<lparr>logs_queue := xs\<rparr>)"
    by (subst clear_logs_queue.simps) (simp add: get_nowait_def q)
  also have "\<dots> = st\<lparr>logs_queue := xs, logs_queue := []\<rparr>"
    using Cons(1) [of "st\<lparr>logs_queue := xs\<rparr>"] by simp
  finally show ?case by simp
qed

lemma collect_from_queue_eq:
  "collect_from_queue st = \<lparr>logs_queue = [], logs_storage = logs_storage st @ logs_queue st\<rparr>"
proof (induction "logs_queue st" arbitrary: st)
  case Nil
  then show ?case
    by (subst collect_from_queue.simps) (simp add: get_nowait_def)
next
  case (Cons x xs)
  from Cons(2) have q: "logs_queue st = x # xs" by simp
  have "collect_from_queue st =
        collect_from_queue (st\<lparr>logs_queue := xs, logs_storage := logs_storage st @ [x]\<rparr>)"
    by (subst collect_from_queue.simps) (simp add: get_nowait_def q)
  also have "\<dots> = \<lparr>logs_queue = [], logs_storage = (logs_storage st @ [x]) @ xs\<rparr>"
    using Cons(1) [of "st\<lparr>logs_queue := xs, logs_storage := logs_storage st @ [x]\<rparr>"] by simp
  finally show ?case by (simp add: q)
qed

lemma first_matching_iff:
  "first_matching p entries \<longleftrightarrow> (\<exists>entry \<in> set entries. re_match p (message entry))"
  by (induction entries) auto

lemma run_ops_inv:
  "logs_storage (run_ops ops st) @ logs_queue (run_ops ops st) =
   logs_storage st @ logs_queue st @ [r. Put r \<leftarrow> ops]"
proof (induction ops arbitrary: st)
  case Nil then show ?case by simp
next
  case (Cons a ops)
  show ?case
  proof (cases a)
    case (Put r)
    then show ?thesis using Cons [of "run_op a st"] by simp
  next
    case (Query p level collect)
    then show ?thesis using Cons [of "run_op a st"]
      by (simp add: has_log_record_def collect_from_queue_eq Let_def)
  qed
qed


lemma has_log_record_buffer:
  "fst (has_log_record p level collect st) \<longleftrightarrow>
     (\<exists>entry \<in> set (logs_storage (snd (has_log_record p level collect st))).
        levelname entry = level \<and> re_match p (message entry))"
  by (auto simp: has_log_record_def filter_logs_def first_matching_iff Let_def)

lemma has_log_record_state:
  "snd (has_log_record p level collect st) =
     (if collect then \<lparr>logs_queue = [], logs_storage = logs_storage st @ logs_queue st\<rparr> else st)"
  by (simp add: has_log_record_def collect_from_queue_eq Let_def)

text \<open>
  C8. Entering the capture scope empties the queue and leaves the buffer as it
  was; leaving it moves everything on the queue to the end of the buffer. For a
  scope whose body puts records on the queue and queries the storage, the buffer
  after the scope is the buffer before it followed by exactly the records put
  during the scope, in order, whatever was on the queue before the scope and
  whether the body ended normally or raised.
\<close>

theorem logs_storage_capture_scope:
  "enter st = st\<lparr>logs_queue := []\<rparr> \<and>
   exit_scope st' = \<lparr>logs_queue = [], logs_storage = logs_storage st' @ logs_queue st'\<rparr> \<and>
   with_logs_storage st body raised =
     (raised, \<lparr>logs_queue = [], logs_storage = logs_storage st @ [r. Put r \<leftarrow> body]\<rparr>)"
proof -
  have e: "enter st = st\<lparr>logs_queue := []\<rparr>"
    by (simp add: enter_def clear_logs_queue_eq)
  have x: "\<And>s. exit_scope s = \<lparr>logs_queue = [], logs_storage = logs_storage s @ logs_queue s\<rparr>"
    by (simp add: exit_scope_def collect_from_queue_eq)
  have "logs_storage (run_ops body (enter st)) @ logs_queue (run_ops body (enter st)) =
        logs_storage st @ [r. Put r \<leftarrow> body]"
    using run_ops_inv [of body "enter st"] by (simp add: e)
  then have "with_logs_storage st body raised =
     (raised, \<lparr>logs_queue = [], logs_storage = logs_storage st @ [r. Put r \<leftarrow> body]\<rparr>)"
    by (simp add: with_logs_storage_def x Let_def)
  with e x show ?thesis by simp
qed

theorem logs_storage_capture_scope_witness:
  "with_logs_storage
     (init_logs_storage [\<lparr>levelname = ''INFO'', logger_name = ''root'', message = ''log1''\<rparr>,
                         \<lparr>levelname = ''INFO'', logger_name = ''root'', message = ''log2''\<rparr>])
     [Put \<lparr>levelname = ''INFO'', logger_name = ''root'', message = ''new_log1''\<rparr>,
      Query (lit ''new'') ''INFO'' True,
      Put \<lparr>levelname = ''ERROR'', logger_name = ''root'', message = ''new_log2''\<rparr>]
     (Some ''boom'') =
   (Some ''boom'',
    \<lparr>logs_queue = [],
     logs_storage = [\<lparr>levelname = ''INFO'', logger_name = ''root'', message = ''new_log1''\<rparr>,
                     \<lparr>levelname = ''ERROR'', logger_name = ''root'', message = ''new_log2''\<rparr>]\<rparr>)"
  using logs_storage_capture_scope
    [of "init_logs_storage [\<lparr>levelname = ''INFO'', logger_name = ''root'', message = ''log1''\<rparr>,
                            \<lparr>levelname = ''INFO'', logger_name = ''root'', message = ''log2''\<rparr>]"
        "init_logs_storage []"
        "[Put \<lparr>levelname = ''INFO'', logger_name = ''root'', message = ''new_log1''\<rparr>,
          Query (lit ''new'') ''INFO'' True,
          Put \<lparr>levelname = ''ERROR'', logger_name = ''root'', message = ''new_log2''\<rparr>]"
        "Some ''boom''"]
  by (simp add: init_logs_storage_def)

text \<open>
  C9. \<open>has_log_record(pattern, level)\<close> is true exactly when the buffer, after the
  optional drain of the queue, holds a record whose level name is \<open>level\<close> and
  whose message the pattern matches; with \<open>collect_new_records_from_queue\<close> the
  queue is first moved to the end of the buffer, so a record still on the queue
  counts, and without it the state is unchanged.
\<close>

theorem has_log_record_correct:
  "(fst (has_log_record p level collect st) \<longleftrightarrow>
      (\<exists>entry \<in> set (logs_storage st @ (if collect then logs_queue st else [])).
         levelname entry = level \<and> re_match p (message entry))) \<and>
   snd (has_log_record p level collect st) =
     (if collect then \<lparr>logs_queue = [], logs_storage = logs_storage st @ logs_queue st\<rparr> else st)"
proof (cases collect)
  case True
  then show ?thesis
    using has_log_record_buffer [of p level collect st] has_log_record_state [of p level collect st]
    by simp
next
  case False
  then show ?thesis
    using has_log_record_buffer [of p level collect st] has_log_record_state [of p level collect st]
    by simp
qed

theorem has_log_record_correct_witness:
  "\<not> fst (has_log_record (lit ''new_log1'') ''INFO'' False
       \<lparr>logs_queue = [\<lparr>levelname = ''INFO'', logger_name = ''root'', message = ''new_log1''\<rparr>],
        logs_storage = [\<lparr>levelname = ''INFO'', logger_name = ''root'', message = ''log1''\<rparr>]\<rparr>) \<and>
   fst (has_log_record (lit ''new_log1'') ''INFO'' True
       \<lparr>logs_queue = [\<lparr>levelname = ''INFO'', logger_name = ''root'', message = ''new_log1''\<rparr>],
        logs_storage = [\<lparr>levelname = ''INFO'', logger_name = ''root'', message = ''log1''\<rparr>]\<rparr>) \<and>
   \<not> fst (has_log_record (lit ''new_log1'') ''ERROR'' True
       \<lparr>logs_queue = [\<lparr>levelname = ''INFO'', logger_name = ''root'', message = ''new_log1''\<rparr>],
        logs_storage = [\<lparr>levelname = ''INFO'', logger_name = ''root'', message = ''log1''\<rparr>]\<rparr>)"
  using
    has_log_record_correct [of "lit ''new_log1''" "''INFO''" False
       "\<lparr>logs_queue = [\<lparr>levelname = ''INFO'', logger_name = ''root'', message = ''new_log1''\<rparr>],
         logs_storage = [\<lparr>levelname = ''INFO'', logger_name = ''root'', message = ''log1''\<rparr>]\<rparr>"]
    has_log_record_correct [of "lit ''new_log1''" "''INFO''" True
       "\<lparr>logs_queue = [\<lparr>levelname = ''INFO'', logger_name = ''root'', message = ''new_log1''\<rparr>],
         logs_storage = [\<lparr>levelname = ''INFO'', logger_name = ''root'', message = ''log1''\<rparr>]\<rparr>"]
    has_log_record_correct [of "lit ''new_log1''" "''ERROR''" True
       "\<lparr>logs_queue = [\<lparr>levelname = ''INFO'', logger_name = ''root'', message = ''new_log1''\<rparr>],
         logs_storage = [\<lparr>levelname = ''INFO'', logger_name = ''root'', message = ''log1''\<rparr>]\<rparr>"]
  by simp

text \<open>
  C10. The pattern is matched from the first character of each message. For
  every state and level, \<open>has_log_record\<close> is true exactly when a buffered record
  of that level has a message with a prefix in the language of the pattern. So a
  plain text pattern \<open>w\<close> finds only messages that begin with \<open>w\<close>, while \<open>.*w\<close>
  finds the messages that contain \<open>w\<close> after a newline-free stretch; the pattern
  \<open>info1\<close> does not find the message \<open>log_info1\<close>, and \<open>.*info1\<close> does.
\<close>

theorem has_log_record_anchored:
  "(fst (has_log_record p level False st) \<longleftrightarrow>
      (\<exists>entry \<in> set (logs_storage st).
         levelname entry = level \<and> (\<exists>u v. message entry = u @ v \<and> u \<in> lang p))) \<and>
   (fst (has_log_record (lit w) level False st) \<longleftrightarrow>
      (\<exists>entry \<in> set (logs_storage st).
         levelname entry = level \<and> (\<exists>v. message entry = w @ v))) \<and>
   (fst (has_log_record (Seq (Star Dot) (lit w)) level False st) \<longleftrightarrow>
      (\<exists>entry \<in> set (logs_storage st).
         levelname entry = level \<and> (\<exists>t v. message entry = t @ w @ v \<and> newline \<notin> set t))) \<and>
   \<not> fst (has_log_record (lit ''info1'') ''INFO'' False
          \<lparr>logs_queue = [],
           logs_storage = [\<lparr>levelname = ''INFO'', logger_name = ''root'', message = ''log_info1''\<rparr>]\<rparr>) \<and>
   fst (has_log_record (Seq (Star Dot) (lit ''info1'')) ''INFO'' False
          \<lparr>logs_queue = [],
           logs_storage = [\<lparr>levelname = ''INFO'', logger_name = ''root'', message = ''log_info1''\<rparr>]\<rparr>)"
proof -
  have g: "\<And>q. fst (has_log_record q level False st) \<longleftrightarrow>
      (\<exists>entry \<in> set (logs_storage st). levelname entry = level \<and> re_match q (message entry))"
    using has_log_record_buffer has_log_record_state by simp
  have a: "fst (has_log_record p level False st) \<longleftrightarrow>
      (\<exists>entry \<in> set (logs_storage st).
         levelname entry = level \<and> (\<exists>u v. message entry = u @ v \<and> u \<in> lang p))"
    unfolding g re_match_iff ..
  have b: "fst (has_log_record (lit w) level False st) \<longleftrightarrow>
      (\<exists>entry \<in> set (logs_storage st).
         levelname entry = level \<and> (\<exists>v. message entry = w @ v))"
    unfolding g re_match_lit ..
  have c: "fst (has_log_record (Seq (Star Dot) (lit w)) level False st) \<longleftrightarrow>
      (\<exists>entry \<in> set (logs_storage st).
         levelname entry = level \<and> (\<exists>t v. message entry = t @ w @ v \<and> newline \<notin> set t))"
    unfolding g re_match_anywhere ..
  have d: "\<not> fst (has_log_record (lit ''info1'') ''INFO'' False
          \<lparr>logs_queue = [],
           logs_storage = [\<lparr>levelname = ''INFO'', logger_name = ''root'', message = ''log_info1''\<rparr>]\<rparr>)"
    by (simp add: has_log_record_def filter_logs_def)
  have e: "fst (has_log_record (Seq (Star Dot) (lit ''info1'')) ''INFO'' False
          \<lparr>logs_queue = [],
           logs_storage = [\<lparr>levelname = ''INFO'', logger_name = ''root'', message = ''log_info1''\<rparr>]\<rparr>)"
    by (simp add: has_log_record_def filter_logs_def newline_def)
  from a b c d e show ?thesis by blast
qed

theorem has_log_record_anchored_witness:
  "\<not> fst (has_log_record (lit ''log2'') ''WARNING'' False
          \<lparr>logs_queue = [],
           logs_storage = [\<lparr>levelname = ''WARNING'', logger_name = ''root'', message = ''a log2''\<rparr>]\<rparr>) \<and>
   fst (has_log_record (Seq (Star Dot) (lit ''log2'')) ''WARNING'' False
          \<lparr>logs_queue = [],
           logs_storage = [\<lparr>levelname = ''WARNING'', logger_name = ''root'', message = ''a log2''\<rparr>]\<rparr>)"
proof -
  let ?st = "\<lparr>logs_queue = [],
           logs_storage = [\<lparr>levelname = ''WARNING'', logger_name = ''root'', message = ''a log2''\<rparr>]\<rparr>"
  have "''a log2'' = ''a '' @ ''log2'' @ [] \<and> newline \<notin> set ''a ''"
    by (simp add: newline_def)
  then have "\<exists>t v. ''a log2'' = t @ ''log2'' @ v \<and> newline \<notin> set t" by blast
  then show ?thesis
    using has_log_record_anchored [of "lit ''log2''" "''WARNING''" ?st "''log2''"]
    by simp
qed

section \<open>Properties of the rule engines\<close>

lemma handle_skip:
  "\<forall>p \<in> set pre. \<not> matches p request \<Longrightarrow> handle (pre @ rules) request = handle rules request"
  by (induction pre) simp_all

lemma handler_skip:
  "\<forall>p \<in> set pre. grpc_rule_rejects p m request \<Longrightarrow>
   handler (pre @ rules) m request ctx = handler rules m request ctx"
  by (induction pre) (auto simp: grpc_rule_rejects_def split: option.splits if_splits)

text \<open>
  C1, as the claim words it, fails for gRPC. The first rule applies to every
  method but its message class cannot decode the two-byte request; the second
  rule matches the call in full. The handler does not answer with the output of
  the second rule: decoding for the first rule raises, and the error leaves the
  handler.
\<close>

theorem first_matching_rule_counterexample:
  "\<not> grpc_rule_matches framed_rule ''lookup'' ''42'' \<and>
   grpc_rule_matches lookup_rule ''lookup'' ''42'' \<and>
   handler [framed_rule, lookup_rule] ''lookup'' ''42'' fresh_context = Inl DecodeError"
  by (simp add: grpc_rule_matches_def method_matches_def message_args_match_def
      framed_rule_def framed_message_def lookup_rule_def id_message_def
      casefold_def lower_char_def dict_is_valid_def key_valid_def dict_comp_def)

text \<open>
  C1, as the code has it. Rules are tried in the order of the list and the first
  rule that matches decides. For HTTP: if no rule before \<open>r\<close> matches the
  request and \<open>r\<close> does, the handler answers with the result of \<open>r\<close>. For
  gRPC: if every rule before \<open>g\<close> rejects the call, so that each of them whose
  method check holds has decoded the request, and \<open>g\<close> matches, its message
  class decoding the request to \<open>msg\<close>, the handler answers with the output of
  \<open>g\<close> on \<open>msg\<close>. In both cases the rules that follow, matching or not, play
  no part: the answer is the one of the list cut after the deciding rule. If
  instead the method check of \<open>g\<close> holds and its message class cannot decode
  the request, the handler ends with the decoding error, whatever rules follow.
\<close>

theorem first_matching_rule_wins:
  "((\<forall>p \<in> set pre. \<not> matches p request) \<and> matches r request \<longrightarrow>
      handle (pre @ r # post) request = process (result r) request \<and>
      handle (pre @ r # post) request = handle (pre @ [r]) request) \<and>
   ((\<forall>p \<in> set gpre. grpc_rule_rejects p m raw) \<and>
    method_matches g m \<and> request_msg_cls g raw = Some msg \<and> message_args_match g msg \<longrightarrow>
      handler (gpre @ g # gpost) m raw ctx = Inr (Some (output_handler g msg), ctx) \<and>
      handler (gpre @ g # gpost) m raw ctx = handler (gpre @ [g]) m raw ctx) \<and>
   ((\<forall>p \<in> set gpre. grpc_rule_rejects p m raw) \<and>
    method_matches g m \<and> request_msg_cls g raw = None \<longrightarrow>
      handler (gpre @ g # gpost) m raw ctx = Inl DecodeError)"
proof (intro conjI impI)
  assume h: "(\<forall>p \<in> set pre. \<not> matches p request) \<and> matches r request"
  then have "handle (pre @ r # post) request = handle (r # post) request"
    and "handle (pre @ [r]) request = handle [r] request"
    by (simp_all add: handle_skip)
  with h show "handle (pre @ r # post) request = process (result r) request"
    and "handle (pre @ r # post) request = handle (pre @ [r]) request"
    by simp_all
next
  assume h: "(\<forall>p \<in> set gpre. grpc_rule_rejects p m raw) \<and>
    method_matches g m \<and> request_msg_cls g raw = Some msg \<and> message_args_match g msg"
  then have "handler (gpre @ g # gpost) m raw ctx = handler (g # gpost) m raw ctx"
    and "handler (gpre @ [g]) m raw ctx = handler [g] m raw ctx"
    by (simp_all add: handler_skip)
  with h show "handler (gpre @ g # gpost) m raw ctx = Inr (Some (output_handler g msg), ctx)"
    and "handler (gpre @ g # gpost) m raw ctx = handler (gpre @ [g]) m raw ctx"
    by simp_all
next
  assume h: "(\<forall>p \<in> set gpre. grpc_rule_rejects p m raw) \<and>
    method_matches g m \<and> request_msg_cls g raw = None"
  then have "handler (gpre @ g # gpost) m raw ctx = handler (g # gpost) m raw ctx"
    by (simp add: handler_skip)
  with h show "handler (gpre @ g # gpost) m raw ctx = Inl DecodeError"
    by simp
qed

text \<open>
  C5, as the claim words it, fails for gRPC. The only rule applies to every
  method and its message class cannot decode the two-byte request, so no rule
  matches; the handler does not abort the call with \<open>INVALID_ARGUMENT\<close> but
  ends with the decoding error.
\<close>

theorem no_rule_matches_counterexample:
  "\<not> grpc_rule_matches framed_rule ''ping'' ''42'' \<and>
   handler [framed_rule] ''ping'' ''42'' fresh_context = Inl DecodeError"
  by (simp add: grpc_rule_matches_def method_matches_def framed_rule_def framed_message_def)

text \<open>
  C5, as the code has it. When no rule of the list matches, the HTTP handler
  returns the JSON response with status 404 whose body names the error and
  repeats the method, the path, the query parameters and the headers of the
  request. When every rule of the list rejects the call, so that each rule whose
  method check holds has decoded the request, the gRPC handler aborts the call
  with \<open>INVALID_ARGUMENT\<close> and the message \<open>no matched GRPC rules found\<close> and
  returns no bytes.
\<close>

theorem no_rule_matches:
  "((\<forall>p \<in> set rules. \<not> matches p request) \<longrightarrow>
      handle rules request =
        JsonResponse
          (JObject [(''ERROR'', JString ''No matching rule found for incoming request''),
                    (''incoming_request_info'',
                     JObject [(''method'', JString (req_method request)),
                              (''path'', JString (req_path request)),
                              (''query_params'', json_of_dict (dict_of (req_query request))),
                              (''headers'', json_of_dict (dict_of (req_headers request)))])])
          404) \<and>
   ((\<forall>p \<in> set grules. grpc_rule_rejects p m raw) \<longrightarrow>
      handler grules m raw ctx =
        Inr (None, ctx\<lparr>aborted := Some (INVALID_ARGUMENT, ''no matched GRPC rules found'')\<rparr>))"
proof (intro conjI impI)
  assume "\<forall>p \<in> set rules. \<not> matches p request"
  then have "handle rules request = handle [] request"
    using handle_skip [of rules request "[]"] by simp
  then show "handle rules request =
        JsonResponse
          (JObject [(''ERROR'', JString ''No matching rule found for incoming request''),
                    (''incoming_request_info'',
                     JObject [(''method'', JString (req_method request)),
                              (''path'', JString (req_path request)),
                              (''query_params'', json_of_dict (dict_of (req_query request))),
                              (''headers'', json_of_dict (dict_of (req_headers request)))])])
          404"
    by (simp add: error_response_json_def)
next
  assume "\<forall>p \<in> set grules. grpc_rule_rejects p m raw"
  then have "handler grules m raw ctx = handler [] m raw ctx"
    using handler_skip [of grules m raw "[]" ctx] by simp
  then show "handler grules m raw ctx =
        Inr (None, ctx\<lparr>aborted := Some (INVALID_ARGUMENT, ''no matched GRPC rules found'')\<rparr>)"
    by (simp add: abort_def)
qed

text \<open>
  C7. An HTTP rule matches a request exactly when its method, path, query
  parameter and header checks all hold. Each check holds when the rule leaves
  its attribute unset, and the method check of a rule with a method compares
  the two method names after lower-casing both.
\<close>

theorem http_rule_matches:
  "(matches rule request \<longleftrightarrow>
      method_mathes rule request \<and> path_matches rule request \<and>
      query_params_match rule request \<and> headers_match rule request) \<and>
   (rule_method rule = None \<longrightarrow> method_mathes rule request) \<and>
   (path rule = None \<longrightarrow> path_matches rule request) \<and>
   (query_params rule = None \<longrightarrow> query_params_match rule request) \<and>
   (headers rule = None \<longrightarrow> headers_match rule request) \<and>
   (\<forall>m. rule_method rule = Some m \<longrightarrow>
      (method_mathes rule request \<longleftrightarrow> lower (req_method request) = lower m))"
  by (simp add: matches_def method_mathes_def path_matches_def query_params_match_def
      headers_match_def schema_of_matcher_def schema_of_dict_def)

lemmas example_defs =
  search_request_def other_request_def search_rule_def other_rule_def id_message_def
  lookup_rule_def any_rule_def fresh_context_def default_http_rule_def
  framed_message_def framed_rule_def ping_rule_def

lemmas match_defs =
  matches_def method_mathes_def path_matches_def query_params_match_def headers_match_def
  schema_of_matcher_def schema_of_dict_def lower_def lower_char_def casefold_def
  grpc_rule_matches_def grpc_rule_rejects_def method_matches_def message_args_match_def
  dict_is_valid_def key_valid_def dict_comp_def str_dict_def

theorem first_matching_rule_wins_witness:
  "handle [other_rule, search_rule, default_http_rule] search_request = Response ''found'' 200 \<and>
   handler [ping_rule, lookup_rule, any_rule] ''lookup'' ''42'' fresh_context =
     Inr (Some ''found'', fresh_context) \<and>
   handler [ping_rule, framed_rule, lookup_rule] ''lookup'' ''42'' fresh_context = Inl DecodeError"
  using first_matching_rule_wins
    [of "[other_rule]" search_request search_rule "[default_http_rule]"
        "[ping_rule]" "''lookup''" "''42''" lookup_rule "[(''id'', PStr ''42'')]" "[any_rule]"
        fresh_context]
    first_matching_rule_wins
    [of "[other_rule]" search_request search_rule "[default_http_rule]"
        "[ping_rule]" "''lookup''" "''42''" framed_rule "[]" "[lookup_rule]"
        fresh_context]
  by (simp add: example_defs match_defs)

theorem no_rule_matches_witness:
  "handle [search_rule] other_request =
     JsonResponse
       (JObject [(''ERROR'', JString ''No matching rule found for incoming request''),
                 (''incoming_request_info'',
                  JObject [(''method'', JString ''GET''),
                           (''path'', JString ''/other''),
                           (''query_params'', JObject [(''q'', JString ''vk''), (''num'', JString ''10'')]),
                           (''headers'', JObject [(''foo'', JString ''bar'')])])])
       404 \<and>
   handler [ping_rule, lookup_rule] ''lookup'' ''7'' fresh_context =
     Inr (None, \<lparr>aborted = Some (INVALID_ARGUMENT, ''no matched GRPC rules found'')\<rparr>)"
  using no_rule_matches
    [of "[search_rule]" other_request "[ping_rule, lookup_rule]" "''lookup''" "''7''" fresh_context]
  by (simp add: example_defs match_defs json_of_dict_def)

theorem http_rule_matches_witness:
  "matches (search_rule\<lparr>rule_method := Some ''GeT''\<rparr>) search_request \<and>
   \<not> matches (search_rule\<lparr>rule_method := Some ''post''\<rparr>) search_request \<and>
   matches default_http_rule other_request"
  using http_rule_matches [of "search_rule\<lparr>rule_method := Some ''GeT''\<rparr>" search_request]
    http_rule_matches [of "search_rule\<lparr>rule_method := Some ''post''\<rparr>" search_request]
    http_rule_matches [of default_http_rule other_request]
  by (simp add: example_defs match_defs)

section \<open>Properties of the orchestration\<close>

lemma worker_of_eq:
  "worker_of b = \<lparr>worker_name = ''backend application '' @ repr b, target = b, daemon = True\<rparr>"
  by (simp add: worker_of_def start_backend_def Let_def)

lemma start_each_eq:
  "start_each bs events = (map worker_of bs, events @ map (\<lambda>b. ProcessStarted (worker_of b)) bs)"
  by (induction bs arbitrary: events) (simp_all add: start_backend_def worker_of_eq Let_def)

lemma same_port_iff:
  "length bs \<noteq> length (remdups (map port bs)) \<longleftrightarrow>
   (\<exists>i j. i < j \<and> j < length bs \<and> port (bs ! i) = port (bs ! j))"
proof -
  have "length (remdups (map port bs)) = length (map port bs) \<longleftrightarrow> distinct (map port bs)"
    using length_remdups_eq [of "map port bs"] remdups_id_iff_distinct [of "map port bs"]
    by (simp only:)
  then have "length bs \<noteq> length (remdups (map port bs)) \<longleftrightarrow> \<not> distinct (map port bs)"
    by (metis length_map)
  also have "\<dots> \<longleftrightarrow> (\<exists>i j. i < j \<and> j < length bs \<and> port (bs ! i) = port (bs ! j))"
  proof
    assume "\<not> distinct (map port bs)"
    then obtain i j where ij: "i < length bs" "j < length bs" "i \<noteq> j" "port (bs ! i) = port (bs ! j)"
      by (auto simp: distinct_conv_nth)
    show "\<exists>i j. i < j \<and> j < length bs \<and> port (bs ! i) = port (bs ! j)"
    proof (cases "i < j")
      case True
      with ij show ?thesis by blast
    next
      case False
      with ij have "j < i \<and> i < length bs \<and> port (bs ! j) = port (bs ! i)" by simp
      then show ?thesis by blast
    qed
  next
    assume "\<exists>i j. i < j \<and> j < length bs \<and> port (bs ! i) = port (bs ! j)"
    then obtain i j where "i < j" "j < length bs" "port (bs ! i) = port (bs ! j)" by blast
    then have "i < length bs \<and> j < length bs \<and> i \<noteq> j \<and> port (bs ! i) = port (bs ! j)"
      by simp
    then show "\<not> distinct (map port bs)"
      unfolding distinct_conv_nth by (metis length_map nth_map)
  qed
  finally show ?thesis .
qed


text \<open>
  C3. When two backends of the list have the same port, \<open>start_backends\<close> raises
  the \<open>ValueError\<close> that carries the list of backends, and nothing has happened
  by then: the record of events is the one it was called with, so no manager
  and no shared list were created and no process was started.
\<close>

theorem same_port_raises_before_anything:
  "\<exists>i j. i < j \<and> j < length backends \<and> port (backends ! i) = port (backends ! j) \<Longrightarrow>
   start_backends backends start_timeout_sec env events = (Some (Inl (ValueError backends)), events)"
  using same_port_iff [of backends] by (simp add: start_backends_def)

theorem same_port_raises_before_anything_witness:
  "start_backends [backend_a, backend_b, backend_c] 5 prompt_start [] =
     (Some (Inl (ValueError [backend_a, backend_b, backend_c])), [])"
proof -
  have "(0::nat) < 2 \<and> 2 < length [backend_a, backend_b, backend_c] \<and>
        port ([backend_a, backend_b, backend_c] ! 0) = port ([backend_a, backend_b, backend_c] ! 2)"
    by (simp add: backend_a_def backend_c_def)
  then have "\<exists>i j. i < j \<and> j < length [backend_a, backend_b, backend_c] \<and>
        port ([backend_a, backend_b, backend_c] ! i) = port ([backend_a, backend_b, backend_c] ! j)"
    by blast
  then show ?thesis by (rule same_port_raises_before_anything)
qed



lemma backends_manager_cleans_up:
  assumes "start_backends backends 5 env events = (Some (Inr procs), events1)"
  shows "backends_manager backends env body events =
           (Some (case body of None \<Rightarrow> Returned | Some e \<Rightarrow> BodyRaised e),
            events1 @ map Terminated procs @ map Joined procs)"
  using assms by (simp add: backends_manager_def terminate_and_join_def)

text \<open>
  C6, at the input where it fails. One backend is started and never signals;
  the loop runs into the timeout after the worker process was started. The
  scope then ends with the \<open>TimeoutError\<close>, and the events show the started
  worker but neither its termination nor its join: the \<open>finally\<close> block ran
  over the empty list.
\<close>

theorem start_timeout_leaves_worker_running:
  "backends_manager [backend_a] never_started (None :: unit option) [] =
     (Some (StartFailed (TimeoutError 5 [])),
      [ManagerCreated, SignalsListCreated, ProcessStarted (worker_of backend_a), ManagerShutdown]) \<and>
   Terminated (worker_of backend_a) \<notin>
     set (snd (backends_manager [backend_a] never_started (None :: unit option) [])) \<and>
   Joined (worker_of backend_a) \<notin>
     set (snd (backends_manager [backend_a] never_started (None :: unit option) []))"
proof -
  have "backends_manager [backend_a] never_started (None :: unit option) [] =
     (Some (StartFailed (TimeoutError 5 [])),
      [ManagerCreated, SignalsListCreated, ProcessStarted (worker_of backend_a), ManagerShutdown])"
    by (simp add: backends_manager_def start_backends_def start_each_eq never_started_def
        terminate_and_join_def)
  then show ?thesis by simp
qed

section \<open>Properties of the mapping match\<close>

lemma set_dict_of: "set (dict_of xs) \<subseteq> set xs"
  by (induction xs rule: dict_of.induct) auto

lemma distinct_dict_of: "distinct (map fst (dict_of xs))"
proof (induction xs rule: dict_of.induct)
  case 1
  then show ?case by simp
next
  case (2 k v xs)
  have "k \<notin> fst ` set (dict_of (filter (\<lambda>(k', v'). k' \<noteq> k) xs))"
    using set_dict_of [of "filter (\<lambda>(k', v'). k' \<noteq> k) xs"] by auto
  with 2 show ?case by simp
qed

lemma keys_dict_set: "fst ` set (dict_set d k v) = insert k (fst ` set d)"
  by (induction d k v rule: dict_set.induct) auto

lemma distinct_dict_set: "distinct (map fst d) \<Longrightarrow> distinct (map fst (dict_set d k v))"
proof (induction d k v rule: dict_set.induct)
  case (1 k v)
  then show ?case by simp
next
  case (2 k' v' d k v)
  then show ?case using keys_dict_set [of d k v] by (auto simp: image_iff)
qed

lemma distinct_foldl_dict_set:
  "distinct (map fst d) \<Longrightarrow> distinct (map fst (foldl (\<lambda>d (k, v). dict_set d k v) d xs))"
  by (induction xs arbitrary: d) (auto simp: distinct_dict_set)

lemma distinct_dict_comp: "distinct (map fst (dict_comp xs))"
  by (simp add: dict_comp_def distinct_foldl_dict_set)

lemma distinct_str_dict: "distinct (map fst d) \<Longrightarrow> distinct (map fst (str_dict d))"
proof -
  have "map fst (str_dict d) = map fst d"
    by (induction d) (auto simp: str_dict_def)
  then show "distinct (map fst d) \<Longrightarrow> distinct (map fst (str_dict d))" by simp
qed

lemma sort_lit_keys:
  "sort_key (\<lambda>(sk, sv). dict_key_priority sk) (lit_keys kv) = lit_keys kv"
proof -
  have "map (\<lambda>(sk, sv). dict_key_priority sk) (lit_keys kv) = replicate (length kv) 0"
    by (induction kv) (auto simp: lit_keys_def)
  then have "sorted (map (\<lambda>(sk, sv). dict_key_priority sk) (lit_keys kv))"
    by simp
  then show ?thesis by (rule sort_key_id_if_sorted)
qed

lemma find_lit_keys:
  "find (\<lambda>(sk, sv). key_valid sk k) (lit_keys kv) =
     (case map_of kv k of None \<Rightarrow> None | Some m \<Rightarrow> Some (Req (Lit (PStr k)), m))"
  by (induction kv) (auto simp: lit_keys_def key_valid_def)

lemma validate_items_lit_keys:
  "validate_items (lit_keys kv) d (new, cov) =
     (if \<forall>(k, v) \<in> set d. case map_of kv k of None \<Rightarrow> True | Some m \<Rightarrow> matcher_valid m v
      then Some (new @ accepted kv d, cov @ map (\<lambda>k. Req (Lit (PStr k))) (accepted kv d))
      else None)"
proof (induction d arbitrary: new cov)
  case Nil
  then show ?case by (simp add: accepted_def)
next
  case (Cons a d)
  obtain k v where a: "a = (k, v)" by (cases a)
  show ?case
  proof (cases "map_of kv k")
    case None
    then show ?thesis using Cons [of new cov] a
      by (simp add: find_lit_keys accepted_def)
  next
    case (Some m)
    then show ?thesis using Cons [of "new @ [k]" "cov @ [Req (Lit (PStr k))]"] a
      by (simp add: find_lit_keys accepted_def)
  qed
qed

lemma length_filter_all: "length (filter P xs) = length xs \<longleftrightarrow> (\<forall>x \<in> set xs. P x)"
proof -
  have "length (filter P xs) + length (filter (\<lambda>x. \<not> P x) xs) = length xs"
    by (rule sum_length_filter_compl)
  then have "length (filter P xs) = length xs \<longleftrightarrow> length (filter (\<lambda>x. \<not> P x) xs) = 0"
    by arith
  also have "\<dots> \<longleftrightarrow> (\<forall>x \<in> set xs. P x)"
    by (simp add: filter_empty_conv)
  finally show ?thesis .
qed

lemma dict_is_valid_lit_keys:
  "dict_is_valid ignore (lit_keys kv) d \<longleftrightarrow>
     (\<forall>(k, v) \<in> set d. case map_of kv k of None \<Rightarrow> True | Some m \<Rightarrow> matcher_valid m v) \<and>
     fst ` set kv \<subseteq> fst ` set d \<and>
     (ignore \<or> fst ` set d = fst ` set kv)"
proof -
  have req: "filter (\<lambda>sk. \<not> is_optional sk) (map fst (lit_keys kv)) =
             map (\<lambda>k. Req (Lit (PStr k))) (map fst kv)"
    by (induction kv) (auto simp: lit_keys_def)
  have dom: "\<And>k. map_of kv k \<noteq> None \<longleftrightarrow> k \<in> fst ` set kv"
    by (simp add: map_of_eq_None_iff)
  have acc: "set (accepted kv d) = fst ` set d \<inter> fst ` set kv"
    by (simp only: accepted_def set_filter dom set_map) blast
  have inj: "inj (\<lambda>k. Req (Lit (PStr k)))" by (simp add: inj_def)
  have cov: "list_all (\<lambda>sk. sk \<in> set (map (\<lambda>k. Req (Lit (PStr k))) (accepted kv d)))
               (map (\<lambda>k. Req (Lit (PStr k))) (map fst kv)) \<longleftrightarrow>
             fst ` set kv \<subseteq> fst ` set d"
    unfolding list_all_iff set_map ball_simps(9) inj_image_mem_iff [OF inj] acc by blast
  have "length (accepted kv d) = length (map fst d) \<longleftrightarrow> (\<forall>k \<in> set (map fst d). map_of kv k \<noteq> None)"
    unfolding accepted_def by (rule length_filter_all)
  then have len: "length (accepted kv d) = length d \<longleftrightarrow> fst ` set d \<subseteq> fst ` set kv"
    unfolding dom by (simp only: length_map set_map) blast
  have sets: "fst ` set kv \<subseteq> fst ` set d \<and> (ignore \<or> fst ` set d \<subseteq> fst ` set kv) \<longleftrightarrow>
              fst ` set kv \<subseteq> fst ` set d \<and> (ignore \<or> fst ` set d = fst ` set kv)"
    by blast
  let ?C = "\<forall>(k, v) \<in> set d. case map_of kv k of None \<Rightarrow> True | Some m \<Rightarrow> matcher_valid m v"
  show ?thesis
  proof (cases ?C)
    case True
    then have v: "validate_items (lit_keys kv) d ([], []) =
                 Some (accepted kv d, map (\<lambda>k. Req (Lit (PStr k))) (accepted kv d))"
      by (simp add: validate_items_lit_keys)
    have "dict_is_valid ignore (lit_keys kv) d \<longleftrightarrow>
            (if \<not> list_all (\<lambda>sk. sk \<in> set (map (\<lambda>k. Req (Lit (PStr k))) (accepted kv d)))
                     (map (\<lambda>k. Req (Lit (PStr k))) (map fst kv)) then False
             else if \<not> ignore \<and> length (accepted kv d) \<noteq> length d then False
             else True)"
      unfolding dict_is_valid_def sort_lit_keys req v by (simp only: option.case prod.case Let_def)
    also have "\<dots> \<longleftrightarrow> fst ` set kv \<subseteq> fst ` set d \<and> (ignore \<or> fst ` set d \<subseteq> fst ` set kv)"
      unfolding cov len by (simp only: if_bool_eq_conj simp_thms) blast
    finally have "dict_is_valid ignore (lit_keys kv) d \<longleftrightarrow>
                    fst ` set kv \<subseteq> fst ` set d \<and> (ignore \<or> fst ` set d = fst ` set kv)"
      unfolding sets .
    with True show ?thesis by blast
  next
    case False
    then have "validate_items (lit_keys kv) d ([], []) = None"
      by (simp add: validate_items_lit_keys)
    then have "\<not> dict_is_valid ignore (lit_keys kv) d"
      unfolding dict_is_valid_def sort_lit_keys by simp
    with False show ?thesis by blast
  qed
qed

lemma spec_mapping_match_lit_keys:
  assumes "distinct (map fst kv)" and "distinct (map fst d)"
  shows "spec_mapping_match ignore (lit_keys kv) d \<longleftrightarrow>
     (\<forall>(k, v) \<in> set d. case map_of kv k of None \<Rightarrow> True | Some m \<Rightarrow> matcher_valid m v) \<and>
     fst ` set kv \<subseteq> fst ` set d \<and>
     (ignore \<or> fst ` set d = fst ` set kv)"
proof -
  have keys: "set (map (\<lambda>(k, v). Lit (PStr k)) d) = (\<lambda>k. Lit (PStr k)) ` fst ` set d"
    "set (map (\<lambda>(sk, m). key_matcher sk) (lit_keys kv)) = (\<lambda>k. Lit (PStr k)) ` fst ` set kv"
    by (simp_all add: lit_keys_def image_image split_beta comp_def)
  have inj: "inj (\<lambda>k. Lit (PStr k))" by (simp add: inj_def)
  have keq: "set (map (\<lambda>(k, v). Lit (PStr k)) d) = set (map (\<lambda>(sk, m). key_matcher sk) (lit_keys kv))
             \<longleftrightarrow> fst ` set d = fst ` set kv"
    unfolding keys using inj by (simp add: inj_image_eq_iff)
  have gen: "\<And>P. list_all P (lit_keys kv) \<longleftrightarrow> (\<forall>(k, m) \<in> set kv. P (Req (Lit (PStr k)), m))"
    by (simp add: list_all_iff lit_keys_def split_beta)
  have one: "\<And>k m. list_ex (\<lambda>(k', v). key_matcher (Req (Lit (PStr k))) = Lit (PStr k') \<and> matcher_valid m v) d
               \<longleftrightarrow> (\<exists>v. (k, v) \<in> set d \<and> matcher_valid m v)"
  proof
    fix k m
    assume "list_ex (\<lambda>(k', v). key_matcher (Req (Lit (PStr k))) = Lit (PStr k') \<and> matcher_valid m v) d"
    then obtain x where x: "x \<in> set d"
      "case x of (k', v) \<Rightarrow> key_matcher (Req (Lit (PStr k))) = Lit (PStr k') \<and> matcher_valid m v"
      unfolding list_ex_iff by blast
    obtain k' v where "x = (k', v)" by (cases x)
    with x have "(k, v) \<in> set d \<and> matcher_valid m v" by simp
    then show "\<exists>v. (k, v) \<in> set d \<and> matcher_valid m v" ..
  next
    fix k m
    assume "\<exists>v. (k, v) \<in> set d \<and> matcher_valid m v"
    then obtain v where v: "(k, v) \<in> set d" "matcher_valid m v" by blast
    then have "case (k, v) of (k', v) \<Rightarrow> key_matcher (Req (Lit (PStr k))) = Lit (PStr k') \<and> matcher_valid m v"
      by simp
    with v(1) show "list_ex (\<lambda>(k', v). key_matcher (Req (Lit (PStr k))) = Lit (PStr k') \<and> matcher_valid m v) d"
      unfolding list_ex_iff by blast
  qed
  have every: "list_all (\<lambda>(sk, m). list_ex (\<lambda>(k, v). key_matcher sk = Lit (PStr k) \<and> matcher_valid m v) d)
                 (lit_keys kv) \<longleftrightarrow>
               (\<forall>(k, m) \<in> set kv. \<exists>v. (k, v) \<in> set d \<and> matcher_valid m v)"
    unfolding gen prod.case one ..
  have pres: "(\<forall>(k, m) \<in> set kv. \<exists>v. (k, v) \<in> set d \<and> matcher_valid m v) \<longleftrightarrow>
              (\<forall>(k, v) \<in> set d. case map_of kv k of None \<Rightarrow> True | Some m \<Rightarrow> matcher_valid m v) \<and>
              fst ` set kv \<subseteq> fst ` set d"
    (is "?L \<longleftrightarrow> ?A \<and> ?B")
  proof
    assume L: ?L
    have ?B
    proof
      fix k assume "k \<in> fst ` set kv"
      then obtain m where "(k, m) \<in> set kv" by force
      with L obtain v where "(k, v) \<in> set d" by blast
      then show "k \<in> fst ` set d" by force
    qed
    moreover have ?A
    proof (clarify)
      fix k v assume kv: "(k, v) \<in> set d"
      show "case map_of kv k of None \<Rightarrow> True | Some m \<Rightarrow> matcher_valid m v"
      proof (cases "map_of kv k")
        case None then show ?thesis by simp
      next
        case (Some m)
        then have "(k, m) \<in> set kv" by (rule map_of_SomeD)
        with L obtain v' where v': "(k, v') \<in> set d" "matcher_valid m v'" by blast
        from assms(2) v'(1) kv have "v' = v" by (rule eq_key_imp_eq_value)
        with v' Some show ?thesis by simp
      qed
    qed
    ultimately show "?A \<and> ?B" by (simp only: simp_thms)
  next
    assume AB: "?A \<and> ?B"
    show ?L
    proof (clarify)
      fix k m assume km: "(k, m) \<in> set kv"
      then have "k \<in> fst ` set kv" by force
      with AB have "k \<in> fst ` set d" by blast
      then obtain v where v: "(k, v) \<in> set d" by force
      from assms(1) km have "map_of kv k = Some m" by simp
      moreover from AB v have "case map_of kv k of None \<Rightarrow> True | Some m \<Rightarrow> matcher_valid m v"
        by blast
      ultimately have "matcher_valid m v" by simp
      with v show "\<exists>v. (k, v) \<in> set d \<and> matcher_valid m v" by blast
    qed
  qed
  show ?thesis
    unfolding spec_mapping_match_def every keq pres conj_assoc ..
qed

lemma dict_is_valid_refines:
  assumes "distinct (map fst kv)" and "distinct (map fst d)"
  shows "dict_is_valid ignore (lit_keys kv) d = spec_mapping_match ignore (lit_keys kv) d"
  using dict_is_valid_lit_keys [of ignore kv d] spec_mapping_match_lit_keys [OF assms, of ignore]
  by simp

lemma spec_mapping_match_plain:
  "spec_mapping_match tolerance (lit_keys kv) actual \<longleftrightarrow>
     (\<forall>(k, m) \<in> set kv. \<exists>v. (k, v) \<in> set actual \<and> matcher_valid m v) \<and>
     (tolerance \<or> fst ` set actual = fst ` set kv)"
proof -
  have l: "set (map (\<lambda>(k, v). Lit (PStr k)) actual) = (\<lambda>k. Lit (PStr k)) ` fst ` set actual"
    by (simp add: image_image split_beta)
  have r: "set (map (\<lambda>(sk, m). key_matcher sk) (lit_keys kv)) = (\<lambda>k. Lit (PStr k)) ` fst ` set kv"
    by (simp add: lit_keys_def image_image split_beta comp_def)
  have inj: "inj (\<lambda>k. Lit (PStr k))" by (simp add: inj_def)
  have keq: "set (map (\<lambda>(k, v). Lit (PStr k)) actual) =
             set (map (\<lambda>(sk, m). key_matcher sk) (lit_keys kv)) \<longleftrightarrow>
             fst ` set actual = fst ` set kv"
    unfolding l r using inj by (simp add: inj_image_eq_iff)
  have every: "list_all (\<lambda>(sk, m). list_ex (\<lambda>(k, v). key_matcher sk = Lit (PStr k) \<and> matcher_valid m v) actual)
                 (lit_keys kv) \<longleftrightarrow>
               (\<forall>(k, m) \<in> set kv. \<exists>v. (k, v) \<in> set actual \<and> matcher_valid m v)"
    by (auto simp: list_all_iff list_ex_iff lit_keys_def) force+
  show ?thesis unfolding spec_mapping_match_def every keq ..
qed

text \<open>
  C2, as the code has it. For a validator whose keys are plain strings, none
  optional, the query-parameter check, the header check and the gRPC field check
  each decide what the specification says: every key of the validator is a key of
  the actual mapping with a value that satisfies its validator, and unless extra
  keys are tolerated the actual keys are exactly the validator's keys.
\<close>

theorem mapping_match_with_plain_keys:
  assumes "distinct (map fst kv)"
  shows "(query_params rule = Some (lit_keys kv) \<longrightarrow>
            query_params_match rule request =
              spec_mapping_match (ignore_extra_query_params rule) (lit_keys kv)
                (str_dict (dict_of (req_query request)))) \<and>
         (headers rule = Some (lit_keys kv) \<longrightarrow>
            headers_match rule request =
              spec_mapping_match (ignore_extra_headers rule) (lit_keys kv)
                (str_dict (dict_of (req_headers request)))) \<and>
         (message_args grule = Some (lit_keys kv) \<longrightarrow>
            message_args_match grule msg =
              spec_mapping_match (ignore_extra_message_args grule) (lit_keys kv) (dict_comp msg))"
proof (intro conjI impI)
  assume "query_params rule = Some (lit_keys kv)"
  then show "query_params_match rule request =
              spec_mapping_match (ignore_extra_query_params rule) (lit_keys kv)
                (str_dict (dict_of (req_query request)))"
    using dict_is_valid_refines [OF assms distinct_str_dict [OF distinct_dict_of]]
    by (simp add: query_params_match_def schema_of_dict_def)
next
  assume "headers rule = Some (lit_keys kv)"
  then show "headers_match rule request =
              spec_mapping_match (ignore_extra_headers rule) (lit_keys kv)
                (str_dict (dict_of (req_headers request)))"
    using dict_is_valid_refines [OF assms distinct_str_dict [OF distinct_dict_of]]
    by (simp add: headers_match_def schema_of_dict_def)
next
  assume "message_args grule = Some (lit_keys kv)"
  then show "message_args_match grule msg =
              spec_mapping_match (ignore_extra_message_args grule) (lit_keys kv) (dict_comp msg)"
    using dict_is_valid_refines [OF assms distinct_dict_comp]
    by (simp add: message_args_match_def)
qed

theorem mapping_match_with_plain_keys_witness:
  "\<not> query_params_match
       (default_http_rule\<lparr>query_params := Some (lit_keys [(''q'', Lit (PStr ''vk''))])\<rparr>)
       search_request \<and>
   query_params_match
       (default_http_rule\<lparr>query_params := Some (lit_keys [(''q'', Lit (PStr ''vk''))]),
                           ignore_extra_query_params := True\<rparr>)
       search_request \<and>
   message_args_match lookup_rule [(''id'', PStr ''42'')]"
proof -
  have d: "distinct (map fst [(''q'', Lit (PStr ''vk''))])"
    "distinct (map fst [(''id'', Lit (PStr ''42''))])" by simp_all
  have m: "message_args lookup_rule = Some (lit_keys [(''id'', Lit (PStr ''42''))])"
    by (simp add: lookup_rule_def lit_keys_def)
  show ?thesis
    using mapping_match_with_plain_keys [OF d(1),
        of "default_http_rule\<lparr>query_params := Some (lit_keys [(''q'', Lit (PStr ''vk''))])\<rparr>"
           search_request]
      mapping_match_with_plain_keys [OF d(1),
        of "default_http_rule\<lparr>query_params := Some (lit_keys [(''q'', Lit (PStr ''vk''))]),
                                ignore_extra_query_params := True\<rparr>"
           search_request]
      mapping_match_with_plain_keys [OF d(2), of _ _ lookup_rule "[(''id'', PStr ''42'')]"] m
    by (simp add: spec_mapping_match_def lit_keys_def default_http_rule_def search_request_def
        str_dict_def lookup_rule_def id_message_def dict_comp_def)
qed

text \<open>
  C2, as the claim words it, fails for validators with other keys. Without
  tolerance the validator \<open>{Regex(".*"): Regex(".*")}\<close> matches the query
  \<open>q=vk&num=10\<close>, though its one key is not a key of the query; with tolerance
  the validator \<open>{Optional("page"): str}\<close> matches the same query, though the
  query has no key \<open>page\<close>.
\<close>

theorem mapping_match_counterexample:
  "query_params_match
     (default_http_rule\<lparr>query_params := Some [(Req (Rx (Star Dot)), Rx (Star Dot))]\<rparr>)
     search_request \<and>
   \<not> spec_mapping_match False [(Req (Rx (Star Dot)), Rx (Star Dot))]
       (str_dict (dict_of (req_query search_request))) \<and>
   query_params_match
     (default_http_rule\<lparr>query_params := Some [(Opt (Lit (PStr ''page'')), TypeStr)],
                         ignore_extra_query_params := True\<rparr>)
     search_request \<and>
   \<not> spec_mapping_match True [(Opt (Lit (PStr ''page'')), TypeStr)]
       (str_dict (dict_of (req_query search_request)))"
  by (simp add: query_params_match_def schema_of_dict_def dict_is_valid_def key_valid_def
      spec_mapping_match_def default_http_rule_def search_request_def str_dict_def newline_def)

end
